theory Spec2Isabelle
  imports Complex_Main
begin

section \<open>Expressions and constraints of the modelling library\<close>

text \<open>
  Modelled from the spec: the notebook uses the library's \<^verbatim>\<open>Variable\<close>, unary minus,
  \<^verbatim>\<open>+\<close> (through Python's \<^verbatim>\<open>sum\<close>), \<^verbatim>\<open>abs\<close>, \<^verbatim>\<open>hstack\<close>, \<^verbatim>\<open>*\<close> with a constant matrix,
  \<^verbatim>\<open>==\<close> and \<^verbatim>\<open><=\<close>, whose classes are not part of the notebook. An Expression is a tree of
  variable references, constants, atom applications (absolute value) and affine
  combinations. A variable has an identity and a number of entries; \<^verbatim>\<open>Variable()\<close> has
  one entry.
\<close>

datatype expr =
    Var nat nat
  | Const real
  | CVec "real list"
  | Neg expr
  | Add expr expr
  | Abs expr
  | Hstack "expr list"
  | MatMul "real list list" expr

text \<open>
  Modelled from the spec: a Constraint is a relation tag (\<^verbatim>\<open>==\<close> or \<^verbatim>\<open><=\<close>) with a left and
  a right Expression.
\<close>

datatype constr = Eq expr expr | Le expr expr

text \<open>
  Modelled from the spec: what the library's expressions and constraints mean. A valuation
  gives every entry of every variable a number. The value of an expression is the list of
  its entries. A one-entry operand combines with an operand of any length (the broadcast
  rule); two longer operands combine entry by entry, and the library refuses operands of
  different lengths before any value is asked for. \<^verbatim>\<open>hstack\<close> puts the entries of its
  arguments one after another, and a constant matrix times an expression has one entry
  per row. A constraint holds when the relation holds in every entry.
\<close>

type_synonym valuation = "nat \<Rightarrow> nat \<Rightarrow> real"

definition broadcast :: "(real \<Rightarrow> real \<Rightarrow> 'a) \<Rightarrow> real list \<Rightarrow> real list \<Rightarrow> 'a list" where
  "broadcast f xs ys =
     (case xs of
        [x] \<Rightarrow> map (f x) ys
      | _ \<Rightarrow> (case ys of [y] \<Rightarrow> map (\<lambda>x. f x y) xs | _ \<Rightarrow> map2 f xs ys))"

fun eval :: "valuation \<Rightarrow> expr \<Rightarrow> real list" where
  "eval \<sigma> (Var i n) = map (\<sigma> i) [0..<n]"
| "eval \<sigma> (Const c) = [c]"
| "eval \<sigma> (CVec cs) = cs"
| "eval \<sigma> (Neg e) = map uminus (eval \<sigma> e)"
| "eval \<sigma> (Add a b) = broadcast (+) (eval \<sigma> a) (eval \<sigma> b)"
| "eval \<sigma> (Abs e) = map abs (eval \<sigma> e)"
| "eval \<sigma> (Hstack es) = concat (map (eval \<sigma>) es)"
| "eval \<sigma> (MatMul A e) = map (\<lambda>row. sum_list (map2 (*) row (eval \<sigma> e))) A"

fun holds :: "valuation \<Rightarrow> constr \<Rightarrow> bool" where
  "holds \<sigma> (Eq a b) = list_all id (broadcast (=) (eval \<sigma> a) (eval \<sigma> b))"
| "holds \<sigma> (Le a b) = list_all id (broadcast (\<le>) (eval \<sigma> a) (eval \<sigma> b))"

fun vars :: "expr \<Rightarrow> nat set" where
  "vars (Var i n) = {i}"
| "vars (Const c) = {}"
| "vars (CVec cs) = {}"
| "vars (Neg e) = vars e"
| "vars (Add a b) = vars a \<union> vars b"
| "vars (Abs e) = vars e"
| "vars (Hstack es) = (\<Union>e \<in> set es. vars e)"
| "vars (MatMul A e) = vars e"

section \<open>Python values the notebook's classes handle\<close>

text \<open>
  An accumulation or a capacity is a Python number or an Expression; a comparison gives
  a Python bool when both sides are numbers and a Constraint when a side is an
  Expression (the library overloads the operator, also reflected).
\<close>

datatype pyval = PInt int | PFloat real | PExpr expr

datatype pyrel = PBool bool | PConstr constr

fun as_expr :: "pyval \<Rightarrow> expr" where
  "as_expr (PInt i) = Const (of_int i)"
| "as_expr (PFloat r) = Const r"
| "as_expr (PExpr e) = e"

text \<open>Python's \<^verbatim>\<open>sum\<close>: the accumulator starts as the int 0, and each element is added to it.\<close>

definition py_add :: "pyval \<Rightarrow> expr \<Rightarrow> pyval" where
  "py_add acc f = PExpr (Add (as_expr acc) f)"

definition py_sum :: "expr list \<Rightarrow> pyval" where
  "py_sum fs = foldl py_add (PInt 0) fs"

fun py_eq :: "pyval \<Rightarrow> pyval \<Rightarrow> pyrel" where
  "py_eq (PInt a) (PInt b) = PBool (a = b)"
| "py_eq (PInt a) (PFloat b) = PBool (of_int a = b)"
| "py_eq (PFloat a) (PInt b) = PBool (a = of_int b)"
| "py_eq (PFloat a) (PFloat b) = PBool (a = b)"
| "py_eq (PExpr e) v = PConstr (Eq e (as_expr v))"
| "py_eq v (PExpr e) = PConstr (Eq e (as_expr v))"

section \<open>The notebook's classes\<close>

text \<open>
  \<^verbatim>\<open>class Edge(object):\<close>\<^verbatim>\<open> def __init__(self, capacity):\<close>
  \<^verbatim>\<open> self.capacity = capacity; self.flow = Variable()\<close>

  \<^verbatim>\<open>class Node(object):\<close>\<^verbatim>\<open> def __init__(self, accumulation=0):\<close>
  \<^verbatim>\<open> self.accumulation = accumulation; self.edge_flows = []\<close>
\<close>

record Edge =
  capacity :: pyval
  flow :: expr

record Node =
  accumulation :: pyval
  edge_flows :: "expr list"

text \<open>
  Nodes are mutable objects that edges refer to, so they live in a heap addressed by
  reference; variables get their identity from a counter.
\<close>

record world =
  next_var :: nat
  next_ref :: nat
  heap :: "nat \<Rightarrow> Node"

definition default_accumulation :: pyval where
  "default_accumulation = PInt 0"

definition empty_world :: world where
  "empty_world =
     \<lparr>next_var = 0, next_ref = 0,
      heap = (\<lambda>_. \<lparr>accumulation = default_accumulation, edge_flows = []\<rparr>)\<rparr>"

definition Variable :: "nat \<Rightarrow> world \<Rightarrow> expr \<times> world" where
  "Variable n w = (Var (next_var w) n, w\<lparr>next_var := Suc (next_var w)\<rparr>)"

definition Edge_init :: "pyval \<Rightarrow> world \<Rightarrow> Edge \<times> world" where
  "Edge_init cap w =
     (case Variable 1 w of (v, w') \<Rightarrow> (\<lparr>capacity = cap, flow = v\<rparr>, w'))"

definition Node_init :: "pyval option \<Rightarrow> world \<Rightarrow> nat \<times> world" where
  "Node_init acc w =
     (next_ref w,
      w\<lparr>next_ref := Suc (next_ref w),
        heap := (heap w)(next_ref w :=
          \<lparr>accumulation = (case acc of None \<Rightarrow> default_accumulation | Some a \<Rightarrow> a),
           edge_flows = []\<rparr>)\<rparr>)"

text \<open>
  \<^verbatim>\<open>def connect(self, in_node, out_node):\<close>
  \<^verbatim>\<open> in_node.edge_flows.append(-self.flow); out_node.edge_flows.append(self.flow)\<close>
\<close>

definition append_flow :: "nat \<Rightarrow> expr \<Rightarrow> world \<Rightarrow> world" where
  "append_flow r f w =
     w\<lparr>heap := (heap w)(r := (heap w r)\<lparr>edge_flows := edge_flows (heap w r) @ [f]\<rparr>)\<rparr>"

definition Edge_connect :: "Edge \<Rightarrow> nat \<Rightarrow> nat \<Rightarrow> world \<Rightarrow> world" where
  "Edge_connect e in_node out_node w =
     append_flow out_node (flow e) (append_flow in_node (Neg (flow e)) w)"

text \<open>
  Edge: \<^verbatim>\<open>return [abs(self.flow) <= self.capacity]\<close>.
  Node: \<^verbatim>\<open>return [sum(f for f in self.edge_flows) == self.accumulation]\<close>.
\<close>

definition Edge_constraints :: "Edge \<Rightarrow> pyrel list" where
  "Edge_constraints e = [PConstr (Le (Abs (flow e)) (as_expr (capacity e)))]"

definition Node_constraints :: "Node \<Rightarrow> pyrel list" where
  "Node_constraints n = [py_eq (py_sum (edge_flows n)) (accumulation n)]"

definition flow_vars :: "Node \<Rightarrow> nat set" where
  "flow_vars n = (\<Union>f \<in> set (edge_flows n). vars f)"

text \<open>The number of entries of an expression's value, read off the expression alone.\<close>

fun entries :: "expr \<Rightarrow> nat" where
  "entries (Var i n) = n"
| "entries (Const c) = 1"
| "entries (CVec cs) = length cs"
| "entries (Neg e) = entries e"
| "entries (Add a b) =
     (if entries a = 1 then entries b
      else if entries b = 1 then entries a
      else min (entries a) (entries b))"
| "entries (Abs e) = entries e"
| "entries (Hstack es) = sum_list (map entries es)"
| "entries (MatMul A e) = length A"

text \<open>
  The value of the left side of a node's conservation constraint: the sum of the flows
  that the connected edges placed in the node.
\<close>

definition conservation_sum :: "valuation \<Rightarrow> Node \<Rightarrow> real" where
  "conservation_sum \<sigma> n = sum_list (eval \<sigma> (as_expr (py_sum (edge_flows n))))"

definition scalar_flows :: "Node \<Rightarrow> bool" where
  "scalar_flows n = list_all (\<lambda>f. entries f = 1) (edge_flows n)"

section \<open>Problems and what a solver may answer\<close>

text \<open>
  Modelled from the spec: a Problem is an objective (a direction and an Expression) and
  an ordered list of constraints. The notebook hands \<^verbatim>\<open>Problem\<close> whatever the objects'
  \<^verbatim>\<open>constraints()\<close> returned, so an entry is a Constraint or a Python bool.
\<close>

datatype objective = Maximize expr | Minimize expr

datatype problem = Problem objective "pyrel list"

fun objective_of :: "problem \<Rightarrow> objective" where
  "objective_of (Problem ob cs) = ob"

fun constraints_of :: "problem \<Rightarrow> pyrel list" where
  "constraints_of (Problem ob cs) = cs"

fun objective_expr :: "objective \<Rightarrow> expr" where
  "objective_expr (Maximize e) = e"
| "objective_expr (Minimize e) = e"

fun sat :: "valuation \<Rightarrow> pyrel \<Rightarrow> bool" where
  "sat \<sigma> (PBool b) = b"
| "sat \<sigma> (PConstr c) = holds \<sigma> c"

definition feasible :: "problem \<Rightarrow> valuation \<Rightarrow> bool" where
  "feasible p \<sigma> = list_all (sat \<sigma>) (constraints_of p)"

definition obj_value :: "valuation \<Rightarrow> expr \<Rightarrow> real option" where
  "obj_value \<sigma> e = (case eval \<sigma> e of [x] \<Rightarrow> Some x | _ \<Rightarrow> None)"

definition attains :: "problem \<Rightarrow> real \<Rightarrow> bool" where
  "attains p v =
     (\<exists>\<sigma>. feasible p \<sigma> \<and> obj_value \<sigma> (objective_expr (objective_of p)) = Some v)"

fun at_least_as_good :: "objective \<Rightarrow> real \<Rightarrow> real \<Rightarrow> bool" where
  "at_least_as_good (Maximize e) v u = (u \<le> v)"
| "at_least_as_good (Minimize e) v u = (v \<le> u)"

text \<open>
  Modelled from the spec: the external solver answers with a status, and with the optimal
  value when the status is optimal. The answer is fixed by the problem's feasible set.
\<close>

datatype status = Optimal real | Infeasible | Unbounded

fun solve_result :: "problem \<Rightarrow> status \<Rightarrow> bool" where
  "solve_result p (Optimal v) =
     (attains p v \<and> (\<forall>u. attains p u \<longrightarrow> at_least_as_good (objective_of p) v u))"
| "solve_result p Infeasible = (\<not> (\<exists>\<sigma>. feasible p \<sigma>))"
| "solve_result p Unbounded =
     ((\<exists>\<sigma>. feasible p \<sigma>) \<and>
      (\<forall>b. \<exists>u. attains p u \<and> u \<noteq> b \<and> at_least_as_good (objective_of p) u b))"

definition same_optimal_value :: "problem \<Rightarrow> problem \<Rightarrow> bool" where
  "same_optimal_value p q = (\<forall>r. solve_result p r = solve_result q r)"

section \<open>Collecting the constraints of composed objects\<close>

text \<open>
  The loop of the last cell takes any object that has \<^verbatim>\<open>constraints()\<close>: here a Node, by
  reference, or an Edge.

  \<^verbatim>\<open>constraints = []\<close>; \<^verbatim>\<open>for obj in nodes + edges: constraints += obj.constraints()\<close>;
  \<^verbatim>\<open>prob = Problem(Maximize(sink.accumulation), constraints)\<close>
\<close>

datatype obj = ONode nat | OEdge Edge

fun obj_constraints :: "world \<Rightarrow> obj \<Rightarrow> pyrel list" where
  "obj_constraints w (ONode r) = Node_constraints (heap w r)"
| "obj_constraints w (OEdge e) = Edge_constraints e"

definition collect :: "world \<Rightarrow> obj list \<Rightarrow> pyrel list" where
  "collect w objs = foldl (\<lambda>constraints ob. constraints @ obj_constraints w ob) [] objs"

definition object_problem :: "world \<Rightarrow> nat list \<Rightarrow> Edge list \<Rightarrow> nat \<Rightarrow> problem" where
  "object_problem w nodes edges sink =
     Problem (Maximize (as_expr (accumulation (heap w sink))))
       (collect w (map ONode nodes @ map OEdge edges))"

text \<open>
  The first cell: the problem written with the incidence matrix \<open>A\<close>, the capacities \<open>c\<close> and
  the number of edges \<open>E\<close>, which the notebook leaves to its reader. With fewer than two
  edges \<^verbatim>\<open>Variable(E-2)\<close> has no valid size.

  \<^verbatim>\<open>flows = Variable(E-2)\<close>; \<^verbatim>\<open>source = Variable()\<close>; \<^verbatim>\<open>sink = Variable()\<close>;
  \<^verbatim>\<open>p = Problem(Maximize(source), [A*hstack([flows,source,sink]) == 0, 0 <= flows, flows <= c])\<close>
\<close>

definition matrix_problem ::
  "real list list \<Rightarrow> real list \<Rightarrow> nat \<Rightarrow> world \<Rightarrow> (problem \<times> world) option" where
  "matrix_problem A c E w =
     (if E < 2 then None
      else
        case Variable (E - 2) w of (flows, w1) \<Rightarrow>
        case Variable 1 w1 of (source, w2) \<Rightarrow>
        case Variable 1 w2 of (sink, w3) \<Rightarrow>
          Some (Problem (Maximize source)
             [PConstr (Eq (MatMul A (Hstack [flows, source, sink])) (Const 0)),
              PConstr (Le (Const 0) flows),
              PConstr (Le flows (CVec c))],
           w3))"

section \<open>The flow network of the notebook, built both ways\<close>

text \<open>
  A network has numbered nodes and capacity-limited arcs, each from a tail to a head;
  flow enters the network at the source node and leaves it at the sink node.
\<close>

record network =
  node_count :: nat
  arcs :: "(nat \<times> nat) list"
  source_node :: nat
  sink_node :: nat

text \<open>
  The incidence matrix as the notebook describes it: entry \<open>(i, j)\<close> is +1 if edge \<open>j\<close>
  enters node \<open>i\<close>, -1 if it leaves node \<open>i\<close>, and 0 otherwise; the source and the sink are
  the last two edges.
\<close>

definition incidence_row :: "network \<Rightarrow> nat \<Rightarrow> real list" where
  "incidence_row net i =
     map (\<lambda>(t, h). if h = i then 1 else if t = i then - 1 else 0) (arcs net) @
     [if i = source_node net then 1 else 0, if i = sink_node net then - 1 else 0]"

definition incidence :: "network \<Rightarrow> real list list" where
  "incidence net = map (incidence_row net) [0..<node_count net]"

definition matrix_flow_problem :: "network \<Rightarrow> real list \<Rightarrow> problem option" where
  "matrix_flow_problem net c =
     map_option fst (matrix_problem (incidence net) c (length (arcs net) + 2) empty_world)"

text \<open>
  The same network from objects, as the notebook's prose has it: a Node per node, the
  source and the sink with a variable as their accumulation and the others with the
  default; an Edge per arc with the arc's capacity; and \<open>edge.connect(tail, head)\<close> for
  each arc. A node index outside the list of nodes is Python's IndexError.
\<close>

fun make_all :: "('a \<Rightarrow> world \<Rightarrow> 'b \<times> world) \<Rightarrow> 'a list \<Rightarrow> world \<Rightarrow> 'b list \<times> world" where
  "make_all init [] w = ([], w)"
| "make_all init (x # xs) w =
     (case init x w of (y, w1) \<Rightarrow>
      case make_all init xs w1 of (ys, w2) \<Rightarrow> (y # ys, w2))"

definition make_node :: "network \<Rightarrow> nat \<Rightarrow> world \<Rightarrow> nat \<times> world" where
  "make_node net i w =
     (if i = source_node net \<or> i = sink_node net
      then (case Variable 1 w of (v, w1) \<Rightarrow> Node_init (Some (PExpr v)) w1)
      else Node_init None w)"

fun connect_all :: "nat list \<Rightarrow> (Edge \<times> nat \<times> nat) list \<Rightarrow> world \<Rightarrow> world option" where
  "connect_all nodes [] w = Some w"
| "connect_all nodes ((e, t, h) # rest) w =
     (if t < length nodes \<and> h < length nodes
      then connect_all nodes rest (Edge_connect e (nodes ! t) (nodes ! h) w)
      else None)"

definition object_flow_problem :: "network \<Rightarrow> real list \<Rightarrow> problem option" where
  "object_flow_problem net c =
     (case make_all (make_node net) [0..<node_count net] empty_world of (nodes, w1) \<Rightarrow>
      case make_all (\<lambda>cap. Edge_init (PFloat cap)) c w1 of (edges, w2) \<Rightarrow>
      case connect_all nodes (zip edges (arcs net)) w2 of
        None \<Rightarrow> None
      | Some w3 \<Rightarrow>
          if sink_node net < length nodes
          then Some (object_problem w3 nodes edges (nodes ! sink_node net))
          else None)"

text \<open>
  Four nodes: the source 0, the sink 3, and two more. Three capacity-limited edges form
  the two paths from the source to the sink, 0 to 1 to 3 and 0 to 3 directly; with the
  source and the sink edge the matrix has five columns. Two paths of three edges in all
  are a path of two edges and a path of one, so the fourth node has no edge.
\<close>

definition two_path_network :: network where
  "two_path_network =
     \<lparr>node_count = 4, arcs = [(0, 1), (1, 3), (0, 3)], source_node = 0, sink_node = 3\<rparr>"

section \<open>Canonical form of a bounded absolute value\<close>

fun constr_vars :: "constr \<Rightarrow> nat set" where
  "constr_vars (Eq a b) = vars a \<union> vars b"
| "constr_vars (Le a b) = vars a \<union> vars b"

fun rel_vars :: "pyrel \<Rightarrow> nat set" where
  "rel_vars (PBool b) = {}"
| "rel_vars (PConstr c) = constr_vars c"

definition problem_vars :: "problem \<Rightarrow> nat set" where
  "problem_vars p =
     vars (objective_expr (objective_of p)) \<union> (\<Union>c \<in> set (constraints_of p). rel_vars c)"

text \<open>
  Modelled from the spec: the Atom Canonicalizer is not among the sources; the notebook
  only builds the constraint \<^verbatim>\<open>abs(self.flow) <= self.capacity\<close>. For an absolute value
  bounded above, \<open>|x| <= c\<close>, the spec gives two canonical forms. The first introduces a
  fresh auxiliary variable \<open>t\<close> of the shape of the atom's result and emits \<open>-t <= x\<close>,
  \<open>x <= t\<close> and \<open>t <= c\<close>; the variable is the next unused identity, and the counter moves
  on. The second replaces the constraint by \<open>-c <= x\<close> and \<open>x <= c\<close>.
\<close>

definition abs_le_epigraph :: "nat \<Rightarrow> expr \<Rightarrow> expr \<Rightarrow> constr list \<times> nat" where
  "abs_le_epigraph n x c =
     ([Le (Neg (Var n (entries x))) x, Le x (Var n (entries x)), Le (Var n (entries x)) c],
      Suc n)"

definition abs_le_direct :: "expr \<Rightarrow> expr \<Rightarrow> constr list" where
  "abs_le_direct x c = [Le (Neg c) x, Le x c]"

text \<open>
  Modelled from the spec: the Atom Canonicalizer itself, which is not among the sources.
  It goes through an expression bottom-up and replaces every atom application that is not
  affine (here the absolute value) by a fresh auxiliary variable \<open>t\<close> of the shape of the
  atom's result, emitting \<open>-t <= x\<close> and \<open>x <= t\<close> for the canonical argument \<open>x\<close>. The counter
  is the next unused variable identity. An expression with no atom left is in canonical
  form.
\<close>

fun affine :: "expr \<Rightarrow> bool" where
  "affine (Var i k) = True"
| "affine (Const c) = True"
| "affine (CVec cs) = True"
| "affine (Neg e) = affine e"
| "affine (Add a b) = (affine a \<and> affine b)"
| "affine (Abs e) = False"
| "affine (Hstack es) = list_all affine es"
| "affine (MatMul A e) = affine e"

fun canon_expr :: "nat \<Rightarrow> expr \<Rightarrow> expr \<times> constr list \<times> nat"
  and canon_exprs :: "nat \<Rightarrow> expr list \<Rightarrow> expr list \<times> constr list \<times> nat" where
  "canon_expr n (Var i k) = (Var i k, [], n)"
| "canon_expr n (Const c) = (Const c, [], n)"
| "canon_expr n (CVec cs) = (CVec cs, [], n)"
| "canon_expr n (Neg e) = (case canon_expr n e of (e', ks, n1) \<Rightarrow> (Neg e', ks, n1))"
| "canon_expr n (Add a b) =
     (case canon_expr n a of (a', ka, n1) \<Rightarrow>
      case canon_expr n1 b of (b', kb, n2) \<Rightarrow> (Add a' b', ka @ kb, n2))"
| "canon_expr n (Abs e) =
     (case canon_expr n e of (e', ks, n1) \<Rightarrow>
        (Var n1 (entries e'),
         ks @ [Le (Neg (Var n1 (entries e'))) e', Le e' (Var n1 (entries e'))],
         Suc n1))"
| "canon_expr n (Hstack es) = (case canon_exprs n es of (es', ks, n1) \<Rightarrow> (Hstack es', ks, n1))"
| "canon_expr n (MatMul A e) = (case canon_expr n e of (e', ks, n1) \<Rightarrow> (MatMul A e', ks, n1))"
| "canon_exprs n [] = ([], [], n)"
| "canon_exprs n (e # es) =
     (case canon_expr n e of (e', ka, n1) \<Rightarrow>
      case canon_exprs n1 es of (es', kb, n2) \<Rightarrow> (e' # es', ka @ kb, n2))"

fun affine_constr :: "constr \<Rightarrow> bool" where
  "affine_constr (Eq a b) = (affine a \<and> affine b)"
| "affine_constr (Le a b) = (affine a \<and> affine b)"

fun canon_constr :: "nat \<Rightarrow> constr \<Rightarrow> constr list \<times> nat" where
  "canon_constr n (Eq a b) =
     (case canon_expr n a of (a', ka, n1) \<Rightarrow>
      case canon_expr n1 b of (b', kb, n2) \<Rightarrow> (ka @ kb @ [Eq a' b'], n2))"
| "canon_constr n (Le a b) =
     (case canon_expr n a of (a', ka, n1) \<Rightarrow>
      case canon_expr n1 b of (b', kb, n2) \<Rightarrow> (ka @ kb @ [Le a' b'], n2))"

fun canonicalize :: "nat \<Rightarrow> constr list \<Rightarrow> constr list \<times> nat" where
  "canonicalize n [] = ([], n)"
| "canonicalize n (k # ks) =
     (case canon_constr n k of (cs1, n1) \<Rightarrow>
      case canonicalize n1 ks of (cs2, n2) \<Rightarrow> (cs1 @ cs2, n2))"

section \<open>Values of expressions\<close>

lemma length_broadcast:
  "length (broadcast f xs ys) =
     (if length xs = 1 then length ys else if length ys = 1 then length xs
      else min (length xs) (length ys))"
  by (auto simp: broadcast_def split: list.splits)

lemma length_eval: "length (eval \<sigma> e) = entries e"
  by (induction e) (simp_all add: length_broadcast length_concat comp_def cong: map_cong)

lemma py_sum_snoc: "py_sum (fs @ [f]) = py_add (py_sum fs) f"
  by (simp add: py_sum_def)

lemma entries_py_sum:
  "list_all (\<lambda>f. entries f = 1) fs \<Longrightarrow> entries (as_expr (py_sum fs)) = 1"
  by (induction fs rule: rev_induct) (simp_all add: py_sum_snoc py_add_def, simp add: py_sum_def)

lemma eval_scalar: "entries e = 1 \<Longrightarrow> eval \<sigma> e = [sum_list (eval \<sigma> e)]"
  using length_eval [of \<sigma> e] by (cases "eval \<sigma> e") (auto)

lemma sum_py_sum_snoc:
  assumes "list_all (\<lambda>f. entries f = 1) fs" "entries f = 1"
  shows "sum_list (eval \<sigma> (as_expr (py_sum (fs @ [f])))) =
         sum_list (eval \<sigma> (as_expr (py_sum fs))) + sum_list (eval \<sigma> f)"
proof -
  obtain a where a: "eval \<sigma> (as_expr (py_sum fs)) = [a]"
    using eval_scalar [OF entries_py_sum [OF assms(1)]] by blast
  obtain b where b: "eval \<sigma> f = [b]"
    using eval_scalar [OF assms(2)] by blast
  show ?thesis
    by (simp add: py_sum_snoc py_add_def a b broadcast_def)
qed

section \<open>Connecting an edge\<close>

lemma Edge_connect_distinct:
  assumes "n1 \<noteq> n2"
  shows "edge_flows (heap (Edge_connect e n1 n2 w) n1) = edge_flows (heap w n1) @ [Neg (flow e)]"
    and "edge_flows (heap (Edge_connect e n1 n2 w) n2) = edge_flows (heap w n2) @ [flow e]"
  using assms by (simp_all add: Edge_connect_def append_flow_def)

lemma Edge_connect_same:
  "edge_flows (heap (Edge_connect e n n w) n) = edge_flows (heap w n) @ [Neg (flow e), flow e]"
  by (simp add: Edge_connect_def append_flow_def)

lemma Edge_connect_frame:
  "accumulation (heap (Edge_connect e n1 n2 w) n) = accumulation (heap w n)"
  "n \<noteq> n1 \<Longrightarrow> n \<noteq> n2 \<Longrightarrow> heap (Edge_connect e n1 n2 w) n = heap w n"
  "next_var (Edge_connect e n1 n2 w) = next_var w"
  "next_ref (Edge_connect e n1 n2 w) = next_ref w"
  by (simp_all add: Edge_connect_def append_flow_def)

lemma flow_vars_connect:
  "flow_vars (heap (Edge_connect e n1 n2 w) n) =
     flow_vars (heap w n) \<union> (if n = n1 \<or> n = n2 then vars (flow e) else {})"
  by (auto simp: Edge_connect_def append_flow_def flow_vars_def)

section \<open>Answers of the solver\<close>

lemma feasible_iff: "feasible (Problem g cs) \<sigma> = (\<forall>c \<in> set cs. sat \<sigma> c)"
  by (simp add: feasible_def list_all_iff)

lemma attains_cong:
  assumes "objective_of p = objective_of q" and "\<And>\<sigma>. feasible p \<sigma> = feasible q \<sigma>"
  shows "attains p v = attains q v"
  using assms by (simp add: attains_def)

lemma solve_result_cong:
  assumes "objective_of p = objective_of q" and "\<And>\<sigma>. feasible p \<sigma> = feasible q \<sigma>"
  shows "solve_result p r = solve_result q r"
proof -
  have "feasible p = feasible q" using assms(2) by (intro ext)
  then show ?thesis using assms(1) attains_cong [OF assms] by (cases r) simp_all
qed

lemma same_optimal_value_set:
  assumes "set cs = set ds"
  shows "same_optimal_value (Problem g cs) (Problem g ds)"
  unfolding same_optimal_value_def
  using assms by (intro allI solve_result_cong) (simp_all add: feasible_iff)

lemma collect_concat: "collect w objs = concat (map (obj_constraints w) objs)"
proof -
  have "foldl (\<lambda>cs ob. cs @ obj_constraints w ob) acc objs =
        acc @ concat (map (obj_constraints w) objs)" for acc
    by (induction objs arbitrary: acc) simp_all
  then show ?thesis by (simp add: collect_def)
qed

section \<open>The two-path network\<close>

lemma matrix_two_path:
  "matrix_flow_problem two_path_network [c0, c1, c2] =
   Some (Problem (Maximize (Var 1 1))
    [PConstr (Eq (MatMul [[- 1, 0, - 1, 1, 0], [1, - 1, 0, 0, 0], [0, 0, 0, 0, 0],
                          [0, 1, 1, 0, - 1]] (Hstack [Var 0 3, Var 1 1, Var 2 1])) (Const 0)),
     PConstr (Le (Const 0) (Var 0 3)),
     PConstr (Le (Var 0 3) (CVec [c0, c1, c2]))])"
  by (simp add: matrix_flow_problem_def matrix_problem_def Variable_def empty_world_def
      incidence_def incidence_row_def two_path_network_def upt_rec)

lemma object_two_path:
  "object_flow_problem two_path_network [c0, c1, c2] =
   Some (Problem (Maximize (Var 1 1))
    [PConstr (Eq (Add (Add (Const 0) (Neg (Var 2 1))) (Neg (Var 4 1))) (Var 0 1)),
     PConstr (Eq (Add (Add (Const 0) (Var 2 1)) (Neg (Var 3 1))) (Const 0)),
     PBool True,
     PConstr (Eq (Add (Add (Const 0) (Var 3 1)) (Var 4 1)) (Var 1 1)),
     PConstr (Le (Abs (Var 2 1)) (Const c0)),
     PConstr (Le (Abs (Var 3 1)) (Const c1)),
     PConstr (Le (Abs (Var 4 1)) (Const c2))])"
  by (simp add: object_flow_problem_def object_problem_def collect_def make_node_def
      Node_init_def Edge_init_def Variable_def empty_world_def Edge_connect_def append_flow_def
      Node_constraints_def Edge_constraints_def py_sum_def py_add_def default_accumulation_def
      two_path_network_def upt_rec)

lemma matrix_feasible:
  "feasible (the (matrix_flow_problem two_path_network [c0, c1, c2])) \<sigma> =
    (\<sigma> 1 0 = \<sigma> 0 0 + \<sigma> 0 2 \<and> \<sigma> 0 0 = \<sigma> 0 1 \<and> \<sigma> 2 0 = \<sigma> 0 1 + \<sigma> 0 2 \<and>
     0 \<le> \<sigma> 0 0 \<and> 0 \<le> \<sigma> 0 1 \<and> 0 \<le> \<sigma> 0 2 \<and>
     \<sigma> 0 0 \<le> c0 \<and> \<sigma> 0 1 \<le> c1 \<and> \<sigma> 0 2 \<le> c2)"
  unfolding matrix_two_path
  by (auto simp add: feasible_def broadcast_def upt_rec eval_nat_numeral)

lemma object_feasible:
  "feasible (the (object_flow_problem two_path_network [c0, c1, c2])) \<sigma> =
    (- \<sigma> 2 0 - \<sigma> 4 0 = \<sigma> 0 0 \<and> \<sigma> 2 0 = \<sigma> 3 0 \<and> \<sigma> 3 0 + \<sigma> 4 0 = \<sigma> 1 0 \<and>
     \<bar>\<sigma> 2 0\<bar> \<le> c0 \<and> \<bar>\<sigma> 3 0\<bar> \<le> c1 \<and> \<bar>\<sigma> 4 0\<bar> \<le> c2)"
  unfolding object_two_path
  by (auto simp add: feasible_def broadcast_def upt_rec eval_nat_numeral)


lemma at_least_as_good_antisym:
  "at_least_as_good g v u \<Longrightarrow> at_least_as_good g u v \<Longrightarrow> u = v"
  by (cases g) simp_all

lemma attains_feasible: "attains p v \<Longrightarrow> \<exists>\<sigma>. feasible p \<sigma>"
  by (auto simp: attains_def)

lemma solve_result_Optimal_only:
  assumes "solve_result p (Optimal v)"
  shows "solve_result p r = (r = Optimal v)"
proof (cases r)
  case (Optimal u)
  show ?thesis
  proof
    assume "solve_result p r"
    with assms Optimal have "at_least_as_good (objective_of p) v u"
      "at_least_as_good (objective_of p) u v" by simp_all
    then show "r = Optimal v" using Optimal by (simp add: at_least_as_good_antisym)
  next
    assume "r = Optimal v" with assms show "solve_result p r" by simp
  qed
next
  case Infeasible
  then show ?thesis using assms attains_feasible [of p v] by simp
next
  case Unbounded
  have "\<not> solve_result p Unbounded"
  proof
    assume "solve_result p Unbounded"
    then obtain u where "attains p u" "u \<noteq> v" "at_least_as_good (objective_of p) u v"
      by auto
    moreover from assms this(1) have "at_least_as_good (objective_of p) v u" by simp
    ultimately show False using at_least_as_good_antisym by blast
  qed
  then show ?thesis using Unbounded by simp
qed

lemma solve_result_Infeasible_only:
  assumes "\<not> (\<exists>\<sigma>. feasible p \<sigma>)"
  shows "solve_result p r = (r = Infeasible)"
  using assms attains_feasible [of p] by (cases r) auto

lemma obj_value_scalar_var: "obj_value \<sigma> (Var i (Suc 0)) = Some (\<sigma> i 0)"
  by (simp add: obj_value_def)

lemma matrix_attains_iff:
  "attains (the (matrix_flow_problem two_path_network [c0, c1, c2])) v =
     (\<exists>\<sigma>. feasible (the (matrix_flow_problem two_path_network [c0, c1, c2])) \<sigma> \<and> \<sigma> 1 0 = v)"
proof -
  have "objective_expr (objective_of (the (matrix_flow_problem two_path_network [c0, c1, c2]))) =
        Var 1 (Suc 0)"
    by (simp add: matrix_two_path)
  then show ?thesis unfolding attains_def by (simp add: obj_value_scalar_var)
qed

lemma object_attains_iff:
  "attains (the (object_flow_problem two_path_network [c0, c1, c2])) v =
     (\<exists>\<sigma>. feasible (the (object_flow_problem two_path_network [c0, c1, c2])) \<sigma> \<and>
          \<sigma> 1 0 = v)"
proof -
  have "objective_expr (objective_of (the (object_flow_problem two_path_network [c0, c1, c2])))
        = Var 1 (Suc 0)"
    by (simp add: object_two_path)
  then show ?thesis unfolding attains_def by (simp add: obj_value_scalar_var)
qed

lemma matrix_attains:
  "attains (the (matrix_flow_problem two_path_network [c0, c1, c2])) v =
     (0 \<le> c0 \<and> 0 \<le> c1 \<and> 0 \<le> c2 \<and> 0 \<le> v \<and> v \<le> min c0 c1 + c2)"
proof
  assume "attains (the (matrix_flow_problem two_path_network [c0, c1, c2])) v"
  then obtain \<sigma> where f: "feasible (the (matrix_flow_problem two_path_network [c0, c1, c2])) \<sigma>"
    and v: "\<sigma> 1 0 = v"
    unfolding matrix_attains_iff by blast
  from f [unfolded matrix_feasible] v
  show "0 \<le> c0 \<and> 0 \<le> c1 \<and> 0 \<le> c2 \<and> 0 \<le> v \<and> v \<le> min c0 c1 + c2"
    by (auto simp: min_def)
next
  assume a: "0 \<le> c0 \<and> 0 \<le> c1 \<and> 0 \<le> c2 \<and> 0 \<le> v \<and> v \<le> min c0 c1 + c2"
  define x where "x = min v (min c0 c1)"
  define \<sigma> :: valuation where
    "\<sigma> = (\<lambda>i j. if i = 0 then (if j = 2 then v - x else x) else v)"
  have "feasible (the (matrix_flow_problem two_path_network [c0, c1, c2])) \<sigma>"
    unfolding matrix_feasible using a by (auto simp: \<sigma>_def x_def min_def)
  moreover have "\<sigma> 1 0 = v" by (simp add: \<sigma>_def)
  ultimately show "attains (the (matrix_flow_problem two_path_network [c0, c1, c2])) v"
    unfolding matrix_attains_iff by blast
qed

lemma object_attains:
  "attains (the (object_flow_problem two_path_network [c0, c1, c2])) v =
     (0 \<le> c0 \<and> 0 \<le> c1 \<and> 0 \<le> c2 \<and> \<bar>v\<bar> \<le> min c0 c1 + c2)"
proof
  assume "attains (the (object_flow_problem two_path_network [c0, c1, c2])) v"
  then obtain \<sigma> where
    f: "feasible (the (object_flow_problem two_path_network [c0, c1, c2])) \<sigma>"
    and v: "\<sigma> 1 0 = v"
    unfolding object_attains_iff by blast
  from f [unfolded object_feasible] v
  show "0 \<le> c0 \<and> 0 \<le> c1 \<and> 0 \<le> c2 \<and> \<bar>v\<bar> \<le> min c0 c1 + c2"
    by (auto simp: min_def)
next
  assume a: "0 \<le> c0 \<and> 0 \<le> c1 \<and> 0 \<le> c2 \<and> \<bar>v\<bar> \<le> min c0 c1 + c2"
  define x where "x = max (- min c0 c1) (min v (min c0 c1))"
  define \<sigma> :: valuation where
    "\<sigma> = (\<lambda>i j. if i = 0 then - v else if i = 1 then v else if i = 4 then v - x else x)"
  have "feasible (the (object_flow_problem two_path_network [c0, c1, c2])) \<sigma>"
    unfolding object_feasible using a by (auto simp: \<sigma>_def x_def min_def max_def)
  moreover have "\<sigma> 1 0 = v" by (simp add: \<sigma>_def)
  ultimately show "attains (the (object_flow_problem two_path_network [c0, c1, c2])) v"
    unfolding object_attains_iff by blast
qed

lemma matrix_result:
  "solve_result (the (matrix_flow_problem two_path_network [c0, c1, c2])) r =
     (r = (if 0 \<le> c0 \<and> 0 \<le> c1 \<and> 0 \<le> c2 then Optimal (min c0 c1 + c2) else Infeasible))"
proof (cases "0 \<le> c0 \<and> 0 \<le> c1 \<and> 0 \<le> c2")
  case True
  have "solve_result (the (matrix_flow_problem two_path_network [c0, c1, c2]))
          (Optimal (min c0 c1 + c2))"
    using True by (simp add: matrix_attains) (simp add: matrix_two_path)
  from solve_result_Optimal_only [OF this] True show ?thesis by simp
next
  case False
  have "\<not> (\<exists>\<sigma>. feasible (the (matrix_flow_problem two_path_network [c0, c1, c2])) \<sigma>)"
    using False by (auto simp: matrix_feasible)
  from solve_result_Infeasible_only [OF this, of r] False show ?thesis by auto
qed

lemma object_result:
  "solve_result (the (object_flow_problem two_path_network [c0, c1, c2])) r =
     (r = (if 0 \<le> c0 \<and> 0 \<le> c1 \<and> 0 \<le> c2 then Optimal (min c0 c1 + c2) else Infeasible))"
proof (cases "0 \<le> c0 \<and> 0 \<le> c1 \<and> 0 \<le> c2")
  case True
  have "solve_result (the (object_flow_problem two_path_network [c0, c1, c2]))
          (Optimal (min c0 c1 + c2))"
    using True by (simp add: object_attains) (auto simp add: object_two_path min_def)
  from solve_result_Optimal_only [OF this] True show ?thesis by simp
next
  case False
  have "\<not> (\<exists>\<sigma>. feasible (the (object_flow_problem two_path_network [c0, c1, c2])) \<sigma>)"
    using False by (auto simp: object_feasible)
  from solve_result_Infeasible_only [OF this, of r] False show ?thesis by auto
qed

section \<open>Canonical forms\<close>

lemma eval_agree: "(\<And>i. i \<in> vars e \<Longrightarrow> \<sigma> i = \<sigma>' i) \<Longrightarrow> eval \<sigma> e = eval \<sigma>' e"
proof (induction e)
  case (Hstack es)
  have "map (eval \<sigma>) es = map (eval \<sigma>') es"
    using Hstack by (intro map_cong) auto
  then show ?case by (simp only: eval.simps)
qed simp_all

lemma holds_agree:
  "(\<And>i. i \<in> constr_vars k \<Longrightarrow> \<sigma> i = \<sigma>' i) \<Longrightarrow> holds \<sigma> k = holds \<sigma>' k"
  by (cases k) (simp_all add: eval_agree [of _ \<sigma> \<sigma>'])

lemma sat_agree:
  "(\<And>i. i \<in> rel_vars k \<Longrightarrow> \<sigma> i = \<sigma>' i) \<Longrightarrow> sat \<sigma> k = sat \<sigma>' k"
  by (cases k) (simp_all add: holds_agree [of _ \<sigma> \<sigma>'])

lemma broadcast_same_length:
  "length xs = length ys \<Longrightarrow> broadcast f xs ys = map2 f xs ys"
  by (auto simp: broadcast_def split: list.splits)

lemma broadcast_left: "broadcast f [x] ys = map (f x) ys"
  by (simp add: broadcast_def)

lemma broadcast_right: "length xs \<noteq> 1 \<Longrightarrow> broadcast f xs [y] = map (\<lambda>x. f x y) xs"
  by (auto simp: broadcast_def split: list.splits)

lemma broadcast_zip:
  "length xs \<noteq> 1 \<Longrightarrow> length ys \<noteq> 1 \<Longrightarrow> broadcast f xs ys = map2 f xs ys"
  by (auto simp: broadcast_def split: list.splits)

lemma all_map2:
  "list_all id (map2 f xs ys) = (\<forall>i < min (length xs) (length ys). f (xs ! i) (ys ! i))"
  by (simp add: list_all_length)

lemma all_map: "list_all id (map f xs) = (\<forall>x \<in> set xs. f x)"
  by (simp add: list_all_iff)

lemma abs_le_direct_values:
  "list_all id (broadcast (\<le>) (map abs X) C) =
     (list_all id (broadcast (\<le>) (map uminus C) X) \<and> list_all id (broadcast (\<le>) X C))"
proof (cases "length X = 1")
  case True
  then obtain x where X: "X = [x]" by (cases X) auto
  show ?thesis
  proof (cases "length C = 1")
    case True
    then obtain c where "C = [c]" by (cases C) auto
    then show ?thesis by (auto simp: X broadcast_left)
  next
    case False
    then show ?thesis by (fastforce simp: X broadcast_left broadcast_right all_map abs_le_iff)
  qed
next
  case nX: False
  show ?thesis
  proof (cases "length C = 1")
    case True
    then obtain c where C: "C = [c]" by (cases C) auto
    show ?thesis using nX by (fastforce simp: C broadcast_left broadcast_right all_map abs_le_iff)
  next
    case False
    then show ?thesis using nX by (fastforce simp: broadcast_zip all_map2 abs_le_iff)
  qed
qed

lemma epigraph_values:
  assumes "length T = length X"
  shows "(list_all id (broadcast (\<le>) (map uminus T) X) \<and> list_all id (broadcast (\<le>) X T))
         = (\<forall>i < length X. \<bar>X ! i\<bar> \<le> T ! i)"
  using assms by (auto simp: broadcast_same_length all_map2 abs_le_iff)

lemma epigraph_bound:
  assumes "length T = length X" and "\<forall>i < length X. \<bar>X ! i\<bar> \<le> T ! i"
    and "list_all id (broadcast (\<le>) T C)"
  shows "list_all id (broadcast (\<le>) (map abs X) C)"
proof (cases "length X = 1")
  case True
  then obtain x where X: "X = [x]" by (cases X) auto
  with assms(1) obtain t where T: "T = [t]" by (cases T) auto
  show ?thesis using assms(2,3) by (auto simp: X T broadcast_left all_map)
next
  case nX: False
  then have nT: "length T \<noteq> 1" using assms(1) by simp
  show ?thesis
  proof (cases "length C = 1")
    case True
    then obtain c where C: "C = [c]" by (cases C) auto
    have "\<bar>x\<bar> \<le> c" if "x \<in> set X" for x
    proof -
      from that obtain i where i: "i < length X" "X ! i = x" by (auto simp: in_set_conv_nth)
      then have "T ! i \<in> set T" using assms(1) by simp
      then have "T ! i \<le> c" using assms(3) nT by (auto simp: C broadcast_right all_map)
      with assms(2) i show ?thesis by force
    qed
    then show ?thesis using nX by (auto simp: C broadcast_right all_map)
  next
    case False
    show ?thesis using assms nX nT False
      by (auto simp: broadcast_zip all_map2 intro: order_trans)
  qed
qed


lemma same_optimal_value_simulation:
  assumes obj: "objective_of p = objective_of q"
    and pq: "\<And>\<sigma>. feasible p \<sigma> \<Longrightarrow>
      \<exists>\<sigma>'. feasible q \<sigma>' \<and> eval \<sigma>' (objective_expr (objective_of p)) =
                              eval \<sigma> (objective_expr (objective_of p))"
    and qp: "\<And>\<sigma>. feasible q \<sigma> \<Longrightarrow>
      \<exists>\<sigma>'. feasible p \<sigma>' \<and> eval \<sigma>' (objective_expr (objective_of p)) =
                              eval \<sigma> (objective_expr (objective_of p))"
  shows "same_optimal_value p q"
proof -
  have att: "attains p v = attains q v" for v
  proof
    assume "attains p v"
    then obtain \<sigma> where "feasible p \<sigma>"
      "obj_value \<sigma> (objective_expr (objective_of p)) = Some v"
      by (auto simp: attains_def)
    with pq [of \<sigma>] show "attains q v"
      unfolding attains_def obj_value_def obj [symmetric] by metis
  next
    assume "attains q v"
    then obtain \<sigma> where "feasible q \<sigma>"
      "obj_value \<sigma> (objective_expr (objective_of p)) = Some v"
      by (auto simp: attains_def obj)
    with qp [of \<sigma>] show "attains p v"
      unfolding attains_def obj_value_def by metis
  qed
  have ex: "(\<exists>\<sigma>. feasible p \<sigma>) = (\<exists>\<sigma>. feasible q \<sigma>)"
    using pq qp by blast
  have "solve_result p r = solve_result q r" for r
    using att ex obj by (cases r) simp_all
  then show ?thesis by (simp add: same_optimal_value_def)
qed

lemma eval_fresh_var:
  "eval (\<sigma>(n := (\<lambda>j. \<bar>X ! j\<bar>))) (Var n (length X)) = map abs X"
proof -
  have "map abs X = map abs (map ((!) X) [0..<length X])"
    by (simp only: map_nth)
  also have "\<dots> = map (\<lambda>j. \<bar>X ! j\<bar>) [0..<length X]"
    by (simp only: map_map comp_def)
  finally show ?thesis by simp
qed

lemma canon_affine:
  "affine e \<Longrightarrow> canon_expr n e = (e, [], n)"
  "list_all affine es \<Longrightarrow> canon_exprs n es = (es, [], n)"
  by (induction n e and n es rule: canon_expr_canon_exprs.induct) simp_all

lemma canon_constr_affine: "affine_constr k \<Longrightarrow> canon_constr n k = ([k], n)"
  by (cases k) (simp_all add: canon_affine)

lemma canonicalize_affine: "list_all affine_constr ks \<Longrightarrow> canonicalize n ks = (ks, n)"
  by (induction ks arbitrary: n) (simp_all add: canon_constr_affine)

lemma canon_result_affine:
  "canon_expr n e = (e', ks, n') \<Longrightarrow> affine e' \<and> list_all affine_constr ks"
  "canon_exprs n es = (es', ks, n') \<Longrightarrow> list_all affine es' \<and> list_all affine_constr ks"
  by (induction n e and n es arbitrary: e' ks n' and es' ks n' rule: canon_expr_canon_exprs.induct)
     (auto split: prod.splits)


lemma canon_constr_result_affine:
  "canon_constr n k = (ks, n') \<Longrightarrow> list_all affine_constr ks"
  by (cases k) (auto split: prod.splits dest: canon_result_affine(1))

lemma canonicalize_result_affine:
  "canonicalize n cs = (ks, n') \<Longrightarrow> list_all affine_constr ks"
  by (induction cs arbitrary: n ks n')
     (auto split: prod.splits dest: canon_constr_result_affine)

lemma canon_abs_le:
  "affine x \<Longrightarrow> affine c \<Longrightarrow> canon_constr n (Le (Abs x) c) = abs_le_epigraph n x c"
  by (simp add: canon_affine abs_le_epigraph_def)

section \<open>The claims\<close>

text \<open>
  Claim C9 (as amended). For an edge \<open>e\<close> and two distinct nodes, \<open>e.connect(in_node, out_node)\<close>
  appends exactly the negated flow of \<open>e\<close> to the edge flows of \<open>in_node\<close> and exactly the
  flow of \<open>e\<close> to those of \<open>out_node\<close>, and changes nothing else: no accumulation, no other
  node, no counter. If the flow variable occurred in no node before, it occurs afterwards
  in the two connected nodes and in no other; and when the flows are scalars, the
  conservation sum of \<open>in_node\<close> goes down by the flow and that of \<open>out_node\<close> goes up by it,
  so the two contributions cancel.
\<close>

theorem Edge_connect_two_nodes:
  assumes "in_node \<noteq> out_node"
  shows "edge_flows (heap (Edge_connect e in_node out_node w) in_node) =
           edge_flows (heap w in_node) @ [Neg (flow e)]
       \<and> edge_flows (heap (Edge_connect e in_node out_node w) out_node) =
           edge_flows (heap w out_node) @ [flow e]
       \<and> (\<forall>n. accumulation (heap (Edge_connect e in_node out_node w) n) =
                accumulation (heap w n))
       \<and> (\<forall>n. n \<noteq> in_node \<and> n \<noteq> out_node \<longrightarrow>
                heap (Edge_connect e in_node out_node w) n = heap w n)
       \<and> next_var (Edge_connect e in_node out_node w) = next_var w
       \<and> next_ref (Edge_connect e in_node out_node w) = next_ref w
       \<and> (vars (flow e) \<noteq> {} \<and> (\<forall>n. vars (flow e) \<inter> flow_vars (heap w n) = {}) \<longrightarrow>
            {n. vars (flow e) \<inter> flow_vars (heap (Edge_connect e in_node out_node w) n) \<noteq> {}} =
            {in_node, out_node})
       \<and> (entries (flow e) = 1 \<and> scalar_flows (heap w in_node) \<and>
            scalar_flows (heap w out_node) \<longrightarrow>
            (\<forall>\<sigma>. conservation_sum \<sigma> (heap (Edge_connect e in_node out_node w) in_node) =
                   conservation_sum \<sigma> (heap w in_node) - sum_list (eval \<sigma> (flow e))
                \<and> conservation_sum \<sigma> (heap (Edge_connect e in_node out_node w) out_node) =
                   conservation_sum \<sigma> (heap w out_node) + sum_list (eval \<sigma> (flow e))))"
proof -
  let ?w = "Edge_connect e in_node out_node w"
  note lists = Edge_connect_distinct [OF assms, of e w]
  have occ: "{n. vars (flow e) \<inter> flow_vars (heap ?w n) \<noteq> {}} = {in_node, out_node}"
    if "vars (flow e) \<noteq> {}" "\<forall>n. vars (flow e) \<inter> flow_vars (heap w n) = {}"
    using that by (auto simp: flow_vars_connect)
  have sums: "conservation_sum \<sigma> (heap ?w in_node) =
                conservation_sum \<sigma> (heap w in_node) - sum_list (eval \<sigma> (flow e))
            \<and> conservation_sum \<sigma> (heap ?w out_node) =
                conservation_sum \<sigma> (heap w out_node) + sum_list (eval \<sigma> (flow e))"
    if "entries (flow e) = 1" "scalar_flows (heap w in_node)" "scalar_flows (heap w out_node)"
    for \<sigma>
  proof -
    have neg: "entries (Neg (flow e)) = 1" using that(1) by simp
    have "sum_list (eval \<sigma> (Neg (flow e))) = - sum_list (eval \<sigma> (flow e))"
      using eval_scalar [OF that(1), of \<sigma>] by (cases "eval \<sigma> (flow e)") auto
    then show ?thesis
      using that(2,3) sum_py_sum_snoc [OF _ neg, of "edge_flows (heap w in_node)" \<sigma>]
        sum_py_sum_snoc [OF _ that(1), of "edge_flows (heap w out_node)" \<sigma>]
      by (simp add: conservation_sum_def scalar_flows_def lists)
  qed
  show ?thesis
    using lists occ sums by (simp add: Edge_connect_frame)
qed

text \<open>The theorem at a fresh edge and two fresh nodes.\<close>

theorem Edge_connect_two_nodes_witness:
  "edge_flows (heap (Edge_connect (fst (Edge_init (PInt 1) empty_world)) 0 1
       (snd (Node_init None (snd (Node_init None (snd (Edge_init (PInt 1) empty_world))))))) 0)
     = [Neg (Var 0 1)]
   \<and> edge_flows (heap (Edge_connect (fst (Edge_init (PInt 1) empty_world)) 0 1
       (snd (Node_init None (snd (Node_init None (snd (Edge_init (PInt 1) empty_world))))))) 1)
     = [Var 0 1]
   \<and> {n. vars (flow (fst (Edge_init (PInt 1) empty_world))) \<inter>
          flow_vars (heap (Edge_connect (fst (Edge_init (PInt 1) empty_world)) 0 1
       (snd (Node_init None (snd (Node_init None (snd (Edge_init (PInt 1) empty_world))))))) n) \<noteq> {}}
     = {0, 1}
   \<and> conservation_sum (\<lambda>i j. 2) (heap (Edge_connect (fst (Edge_init (PInt 1) empty_world)) 0 1
       (snd (Node_init None (snd (Node_init None (snd (Edge_init (PInt 1) empty_world))))))) 0)
     = - 2
   \<and> conservation_sum (\<lambda>i j. 2) (heap (Edge_connect (fst (Edge_init (PInt 1) empty_world)) 0 1
       (snd (Node_init None (snd (Node_init None (snd (Edge_init (PInt 1) empty_world))))))) 1)
     = 2"
proof -
  let ?e = "fst (Edge_init (PInt 1) empty_world)"
  let ?w = "snd (Node_init None (snd (Node_init None (snd (Edge_init (PInt 1) empty_world)))))"
  have e: "flow ?e = Var 0 1"
    by (simp add: Edge_init_def Variable_def empty_world_def)
  have w: "edge_flows (heap ?w n) = []" for n
    by (simp add: Edge_init_def Variable_def Node_init_def empty_world_def)
  have fv: "flow_vars (heap ?w n) = {}" for n
    by (simp add: flow_vars_def w)
  have sc: "scalar_flows (heap ?w n)" for n
    by (simp add: scalar_flows_def w)
  have cs: "conservation_sum \<sigma> (heap ?w n) = 0" for \<sigma> n
    by (simp add: conservation_sum_def w py_sum_def)
  have "(0::nat) \<noteq> 1" by simp
  from Edge_connect_two_nodes [OF this, of ?e ?w]
  show ?thesis
    unfolding e w fv by (simp add: sc cs)
qed

text \<open>
  Connecting an edge to one node twice, \<open>e.connect(n, n)\<close>, appends two elements to that
  node's list, so the list is not the old one with the negated flow alone appended.
\<close>

theorem Edge_connect_same_node_counterexample:
  "edge_flows (heap (Edge_connect (fst (Edge_init (PInt 1) empty_world)) 0 0
       (snd (Node_init None (snd (Edge_init (PInt 1) empty_world))))) 0)
     = [Neg (Var 0 1), Var 0 1]
   \<and> edge_flows (heap (Edge_connect (fst (Edge_init (PInt 1) empty_world)) 0 0
       (snd (Node_init None (snd (Edge_init (PInt 1) empty_world))))) 0)
     \<noteq> edge_flows (heap (snd (Node_init None (snd (Edge_init (PInt 1) empty_world)))) 0)
         @ [Neg (flow (fst (Edge_init (PInt 1) empty_world)))]"
  by (simp add: Edge_connect_def append_flow_def Edge_init_def Variable_def Node_init_def
      empty_world_def)

text \<open>
  Claim C10. A node with the default accumulation 0 and no flow in \<open>edge_flows\<close> returns
  from \<open>constraints()\<close> a one-element list; the sum over the empty list is the Python int
  0, so the element is the comparison \<open>0 == 0\<close> of two numbers, the bool \<open>True\<close>, and not a
  Constraint of the library.
\<close>

theorem Node_constraints_isolated_default:
  assumes "accumulation n = default_accumulation" and "edge_flows n = []"
  shows "py_sum (edge_flows n) = PInt 0
       \<and> Node_constraints n = [py_eq (PInt 0) (PInt 0)]
       \<and> Node_constraints n = [PBool True]"
  using assms by (simp add: Node_constraints_def py_sum_def default_accumulation_def)

text \<open>The theorem at a node that the constructor has just made with its default.\<close>

theorem Node_constraints_isolated_default_witness:
  "Node_constraints (heap (snd (Node_init None empty_world)) (fst (Node_init None empty_world)))
     = [PBool True]"
  using Node_constraints_isolated_default
    [of "heap (snd (Node_init None empty_world)) (fst (Node_init None empty_world))"]
  by (simp add: Node_init_def empty_world_def)

text \<open>
  Claim C7. The loop that collects the objects' constraints removes no duplicate: it
  returns the objects' lists one after the other. An object whose constraints are all
  contributed already (a second object on the same edge's flow variable, say) adds them
  once more, and every answer a solver may give stays the same: status and optimal value.
  The same holds for any problem and any constraint of its list that is added once more,
  at any place.
\<close>

theorem redundant_constraint_same_optimal_value:
  assumes "c \<in> set (xs @ ys)"
  shows "(\<forall>w objs. collect w objs = concat (map (obj_constraints w) objs))
       \<and> (\<forall>w us vs ob. set (obj_constraints w ob) \<subseteq> set (collect w (us @ vs)) \<longrightarrow>
            same_optimal_value (Problem g (collect w (us @ ob # vs)))
              (Problem g (collect w (us @ vs))))
       \<and> same_optimal_value (Problem g (xs @ c # ys)) (Problem g (xs @ ys))"
proof -
  have "set (xs @ c # ys) = set (xs @ ys)" using assms by auto
  then have one: "same_optimal_value (Problem g (xs @ c # ys)) (Problem g (xs @ ys))"
    by (rule same_optimal_value_set)
  have two: "same_optimal_value (Problem g (collect w (us @ ob # vs)))
              (Problem g (collect w (us @ vs)))"
    if "set (obj_constraints w ob) \<subseteq> set (collect w (us @ vs))" for w us vs ob
    using that by (intro same_optimal_value_set) (auto simp: collect_concat)
  show ?thesis using one two by (simp add: collect_concat)
qed

text \<open>
  The theorem at one edge of capacity 1 that is given to the loop twice: its capacity
  constraint is collected twice, and the optimal value is that of the problem with the
  edge given once.
\<close>

theorem redundant_constraint_same_optimal_value_witness:
  "collect empty_world
     [OEdge (fst (Edge_init (PFloat 1) empty_world)),
      OEdge (fst (Edge_init (PFloat 1) empty_world))] =
     [PConstr (Le (Abs (Var 0 1)) (Const 1)), PConstr (Le (Abs (Var 0 1)) (Const 1))]
   \<and> same_optimal_value
     (Problem (Maximize (Var 0 1))
        (collect empty_world
           [OEdge (fst (Edge_init (PFloat 1) empty_world)),
            OEdge (fst (Edge_init (PFloat 1) empty_world))]))
     (Problem (Maximize (Var 0 1))
        (collect empty_world [OEdge (fst (Edge_init (PFloat 1) empty_world))]))"
  using redundant_constraint_same_optimal_value
    [of "PConstr (Le (Abs (Var 0 1)) (Const 1))" "[PConstr (Le (Abs (Var 0 1)) (Const 1))]" "[]"
      "Maximize (Var 0 1)"]
  by (simp add: collect_def Edge_constraints_def Edge_init_def Variable_def empty_world_def)

text \<open>
  Claim C1. For the network of four nodes and five edges (the source edge, the sink edge
  and three capacity-limited edges that form two paths from the source to the sink), and
  for any three capacities, the problem written with the incidence matrix and the problem
  collected from the Edge and Node objects have the same optimal value: every answer a
  solver may give for one is an answer for the other. Both are infeasible when a capacity
  is negative, and otherwise both have the optimal value \<open>min c0 c1 + c2\<close>.
\<close>

theorem two_path_network_same_optimal_value:
  "\<exists>p q. matrix_flow_problem two_path_network [c0, c1, c2] = Some q
     \<and> object_flow_problem two_path_network [c0, c1, c2] = Some p
     \<and> same_optimal_value q p
     \<and> solve_result p
          (if 0 \<le> c0 \<and> 0 \<le> c1 \<and> 0 \<le> c2 then Optimal (min c0 c1 + c2) else Infeasible)"
proof -
  obtain p where p: "object_flow_problem two_path_network [c0, c1, c2] = Some p"
    by (simp add: object_two_path)
  obtain q where q: "matrix_flow_problem two_path_network [c0, c1, c2] = Some q"
    by (simp add: matrix_two_path)
  have "solve_result q r = solve_result p r" for r
    using object_result [of c0 c1 c2 r] matrix_result [of c0 c1 c2 r] p q by simp
  moreover have "solve_result p
      (if 0 \<le> c0 \<and> 0 \<le> c1 \<and> 0 \<le> c2 then Optimal (min c0 c1 + c2) else Infeasible)"
    using object_result [of c0 c1 c2] p by simp
  ultimately show ?thesis using p q by (simp add: same_optimal_value_def)
qed

text \<open>The theorem at the capacities 1, 2 and 3: both problems have the optimal value 4.\<close>

theorem two_path_network_same_optimal_value_witness:
  "\<exists>p q. matrix_flow_problem two_path_network [1, 2, 3] = Some q
     \<and> object_flow_problem two_path_network [1, 2, 3] = Some p
     \<and> solve_result p (Optimal 4)
     \<and> solve_result q (Optimal 4)"
proof -
  from two_path_network_same_optimal_value [of 1 2 3]
  obtain p q where q: "matrix_flow_problem two_path_network [1, 2, 3] = Some q"
    and p: "object_flow_problem two_path_network [1, 2, 3] = Some p"
    and same: "same_optimal_value q p"
    and res: "solve_result p (Optimal 4)"
    by auto
  from same res have "solve_result q (Optimal 4)"
    unfolding same_optimal_value_def by blast
  with p q res show ?thesis by blast
qed

text \<open>
  Claim C2. Take a constraint \<open>|x| <= c\<close> anywhere in the constraint list of a problem
  with any objective (a minimization in particular), and a counter above every variable of
  the problem. Replacing the constraint by \<open>-t <= x\<close>, \<open>x <= t\<close>, \<open>t <= c\<close> for the fresh
  variable \<open>t\<close>, or by \<open>-c <= x\<close>, \<open>x <= c\<close>, changes no answer a solver may give: the status
  and the optimal value are those of the original problem. For affine \<open>x\<close> and \<open>c\<close> the
  first system is what the canonicalizer returns for the constraint.
\<close>

theorem abs_le_canonical_same_optimal_value:
  assumes fresh: "\<forall>i \<in> problem_vars (Problem g (xs @ PConstr (Le (Abs x) c) # ys)). i < n"
  shows "same_optimal_value (Problem g (xs @ PConstr (Le (Abs x) c) # ys))
           (Problem g (xs @ map PConstr (fst (abs_le_epigraph n x c)) @ ys))
       \<and> same_optimal_value (Problem g (xs @ PConstr (Le (Abs x) c) # ys))
           (Problem g (xs @ map PConstr (abs_le_direct x c) @ ys))
       \<and> snd (abs_le_epigraph n x c) = Suc n
       \<and> (affine x \<and> affine c \<longrightarrow> canon_constr n (Le (Abs x) c) = abs_le_epigraph n x c)"
proof -
  let ?e = "objective_expr g"
  let ?T = "Var n (entries x)"
  from fresh have nx: "n \<notin> vars x" and nc: "n \<notin> vars c" and ne: "n \<notin> vars ?e"
    and nr: "\<And>k. k \<in> set xs \<union> set ys \<Longrightarrow> n \<notin> rel_vars k"
    by (auto simp: problem_vars_def)
  have direct: "same_optimal_value (Problem g (xs @ PConstr (Le (Abs x) c) # ys))
           (Problem g (xs @ map PConstr (abs_le_direct x c) @ ys))"
  proof (rule same_optimal_value_simulation)
    fix \<sigma>
    assume "feasible (Problem g (xs @ PConstr (Le (Abs x) c) # ys)) \<sigma>"
    then have "feasible (Problem g (xs @ map PConstr (abs_le_direct x c) @ ys)) \<sigma>"
      using abs_le_direct_values [of "eval \<sigma> x" "eval \<sigma> c"]
      by (auto simp: feasible_iff abs_le_direct_def)
    then show "\<exists>\<sigma>'. feasible (Problem g (xs @ map PConstr (abs_le_direct x c) @ ys)) \<sigma>' \<and>
        eval \<sigma>' (objective_expr (objective_of (Problem g (xs @ PConstr (Le (Abs x) c) # ys)))) =
        eval \<sigma> (objective_expr (objective_of (Problem g (xs @ PConstr (Le (Abs x) c) # ys))))"
      by blast
  next
    fix \<sigma>
    assume "feasible (Problem g (xs @ map PConstr (abs_le_direct x c) @ ys)) \<sigma>"
    then have "feasible (Problem g (xs @ PConstr (Le (Abs x) c) # ys)) \<sigma>"
      using abs_le_direct_values [of "eval \<sigma> x" "eval \<sigma> c"]
      by (auto simp: feasible_iff abs_le_direct_def)
    then show "\<exists>\<sigma>'. feasible (Problem g (xs @ PConstr (Le (Abs x) c) # ys)) \<sigma>' \<and>
        eval \<sigma>' (objective_expr (objective_of (Problem g (xs @ PConstr (Le (Abs x) c) # ys)))) =
        eval \<sigma> (objective_expr (objective_of (Problem g (xs @ PConstr (Le (Abs x) c) # ys))))"
      by blast
  qed simp
  have epi: "same_optimal_value (Problem g (xs @ PConstr (Le (Abs x) c) # ys))
           (Problem g (xs @ map PConstr (fst (abs_le_epigraph n x c)) @ ys))"
  proof (rule same_optimal_value_simulation)
    fix \<sigma>
    assume f: "feasible (Problem g (xs @ PConstr (Le (Abs x) c) # ys)) \<sigma>"
    define \<sigma>' where "\<sigma>' = \<sigma>(n := (\<lambda>j. \<bar>eval \<sigma> x ! j\<bar>))"
    have agree: "\<And>i. i \<noteq> n \<Longrightarrow> \<sigma> i = \<sigma>' i" by (simp add: \<sigma>'_def)
    have ex: "eval \<sigma>' x = eval \<sigma> x"
      using nx agree by (intro eval_agree [symmetric]) metis
    have ec: "eval \<sigma>' c = eval \<sigma> c"
      using nc agree by (intro eval_agree [symmetric]) metis
    have ee: "eval \<sigma>' ?e = eval \<sigma> ?e"
      using ne agree by (intro eval_agree [symmetric]) metis
    have rest: "sat \<sigma>' k = sat \<sigma> k" if "k \<in> set xs \<union> set ys" for k
      using nr [OF that] agree by (intro sat_agree [symmetric]) metis
    have T: "eval \<sigma>' ?T = map abs (eval \<sigma> x)"
      using eval_fresh_var [of \<sigma> n "eval \<sigma> x"] by (simp add: \<sigma>'_def length_eval)
    have "list_all id (broadcast (\<le>) (map uminus (eval \<sigma>' ?T)) (eval \<sigma>' x)) \<and>
          list_all id (broadcast (\<le>) (eval \<sigma>' x) (eval \<sigma>' ?T))"
      unfolding T ex by (subst epigraph_values) simp_all
    moreover have "list_all id (broadcast (\<le>) (eval \<sigma>' ?T) (eval \<sigma>' c))"
      unfolding T ec using f by (simp add: feasible_iff)
    ultimately have "feasible (Problem g (xs @ map PConstr (fst (abs_le_epigraph n x c)) @ ys)) \<sigma>'"
      using f rest by (auto simp: feasible_iff abs_le_epigraph_def simp del: eval.simps(1))
    with ee show "\<exists>\<sigma>'. feasible (Problem g (xs @ map PConstr (fst (abs_le_epigraph n x c)) @ ys)) \<sigma>' \<and>
        eval \<sigma>' (objective_expr (objective_of (Problem g (xs @ PConstr (Le (Abs x) c) # ys)))) =
        eval \<sigma> (objective_expr (objective_of (Problem g (xs @ PConstr (Le (Abs x) c) # ys))))"
      by auto
  next
    fix \<sigma>
    assume f: "feasible (Problem g (xs @ map PConstr (fst (abs_le_epigraph n x c)) @ ys)) \<sigma>"
    have len: "length (eval \<sigma> ?T) = length (eval \<sigma> x)" by (simp add: length_eval)
    from f have a: "list_all id (broadcast (\<le>) (map uminus (eval \<sigma> ?T)) (eval \<sigma> x))"
      and b: "list_all id (broadcast (\<le>) (eval \<sigma> x) (eval \<sigma> ?T))"
      and d: "list_all id (broadcast (\<le>) (eval \<sigma> ?T) (eval \<sigma> c))"
      by (auto simp: feasible_iff abs_le_epigraph_def simp del: eval.simps(1))
    from a b have "\<forall>i < length (eval \<sigma> x). \<bar>eval \<sigma> x ! i\<bar> \<le> eval \<sigma> ?T ! i"
      using epigraph_values [OF len] by blast
    from epigraph_bound [OF len this d] f
    have "feasible (Problem g (xs @ PConstr (Le (Abs x) c) # ys)) \<sigma>"
      by (auto simp: feasible_iff)
    then show "\<exists>\<sigma>'. feasible (Problem g (xs @ PConstr (Le (Abs x) c) # ys)) \<sigma>' \<and>
        eval \<sigma>' (objective_expr (objective_of (Problem g (xs @ PConstr (Le (Abs x) c) # ys)))) =
        eval \<sigma> (objective_expr (objective_of (Problem g (xs @ PConstr (Le (Abs x) c) # ys))))"
      by blast
  qed simp
  have counter: "snd (abs_le_epigraph n x c) = Suc n" by (simp add: abs_le_epigraph_def)
  from direct epi counter canon_abs_le [of x c n] show ?thesis by blast
qed

text \<open>
  The theorem at the capacity constraint of a fresh edge of capacity 1, in the problem of
  minimizing the edge's flow.
\<close>

theorem abs_le_canonical_same_optimal_value_witness:
  "same_optimal_value
     (Problem (Minimize (Var 0 1)) (Edge_constraints (fst (Edge_init (PFloat 1) empty_world))))
     (Problem (Minimize (Var 0 1))
        [PConstr (Le (Neg (Var 1 1)) (Var 0 1)), PConstr (Le (Var 0 1) (Var 1 1)),
         PConstr (Le (Var 1 1) (Const 1))])
   \<and> same_optimal_value
     (Problem (Minimize (Var 0 1)) (Edge_constraints (fst (Edge_init (PFloat 1) empty_world))))
     (Problem (Minimize (Var 0 1))
        [PConstr (Le (Neg (Const 1)) (Var 0 1)), PConstr (Le (Var 0 1) (Const 1))])
   \<and> canon_constr 1 (Le (Abs (Var 0 1)) (Const 1)) =
       ([Le (Neg (Var 1 1)) (Var 0 1), Le (Var 0 1) (Var 1 1), Le (Var 1 1) (Const 1)], 2)"
  using abs_le_canonical_same_optimal_value [of "Minimize (Var 0 1)" "[]" "Var 0 1" "Const 1" "[]" 1]
  by (simp add: problem_vars_def abs_le_epigraph_def abs_le_direct_def Edge_constraints_def
      Edge_init_def Variable_def empty_world_def)

text \<open>
  Claim C3. The canonicalizer returns an expression with no atom as it is, with no
  constraint added and the counter unchanged, and likewise a list of constraints with no
  atom. What it returns for any list of constraints has no atom, so running it once more,
  from any counter, returns the same list and introduces no variable.
\<close>

theorem canonicalize_idempotent:
  "(affine e \<longrightarrow> canon_expr n e = (e, [], n))
   \<and> (list_all affine_constr ks \<longrightarrow> canonicalize n ks = (ks, n))
   \<and> list_all affine_constr (fst (canonicalize n cs))
   \<and> canonicalize m (fst (canonicalize n cs)) = (fst (canonicalize n cs), m)"
proof -
  have "list_all affine_constr (fst (canonicalize n cs))"
    using canonicalize_result_affine [of n cs] by (cases "canonicalize n cs") simp
  then show ?thesis
    by (simp add: canon_affine canonicalize_affine)
qed

text \<open>The theorem at an affine expression, an affine constraint and a bounded absolute value.\<close>

theorem canonicalize_idempotent_witness:
  "canon_expr 1 (Add (Var 0 1) (Const 1)) = (Add (Var 0 1) (Const 1), [], 1)
   \<and> canonicalize 1 [Le (Var 0 1) (Const 1)] = ([Le (Var 0 1) (Const 1)], 1)
   \<and> canonicalize 2 (fst (canonicalize 1 [Le (Abs (Var 0 1)) (Const 1)])) =
       ([Le (Neg (Var 1 1)) (Var 0 1), Le (Var 0 1) (Var 1 1), Le (Var 1 1) (Const 1)], 2)"
  using canonicalize_idempotent [of "Add (Var 0 1) (Const 1)" 1 "[Le (Var 0 1) (Const 1)]"
      "[Le (Abs (Var 0 1)) (Const 1)]" 2]
  by simp

end
